theory Spec2Isabelle
  imports Complex_Main
begin

section \<open>Samples: IEEE 754 binary64 values\<close>

text \<open>
  The filter of \<^verbatim>\<open>dcblocker_tilde.cpp\<close> works on values of type \<^verbatim>\<open>sample\<close>, a C++
  \<^verbatim>\<open>double\<close>. A sample is a finite value \<open>(-1)^s * m * 2^e\<close>, an infinity with a sign, or a
  NaN (all NaN payloads are one value here). The arithmetic is that of the C++ operators
  on \<^verbatim>\<open>double\<close>: every operation is computed exactly and rounded once, to nearest with ties
  to even, with gradual underflow and overflow to infinity; the subtraction, the product and
  the sum of \<^verbatim>\<open>x - x_1 + y_1 * 0.9997\<close> are three operations, none fused with another. The
  flush-to-zero mode that the comment above \<^verbatim>\<open>calculate\<close> attributes to the host is a setting
  of the CPU made outside this file; it is not part of the model.
\<close>

datatype sample = Finite bool nat int | Infinity bool | NaN

text \<open>
  The finite values of binary64 in canonical form: a mantissa below \<open>2^53\<close>, the exponent of
  the last place between \<open>-1074\<close> and \<open>971\<close>, and a full mantissa (at least \<open>2^52\<close>) above the
  lowest exponent. Zero is mantissa \<open>0\<close> at exponent \<open>-1074\<close>, with either sign.
\<close>

definition wf_sample :: "sample \<Rightarrow> bool" where
  "wf_sample v =
     (case v of
        Finite s m e \<Rightarrow> m < 2 ^ 53 \<and> - 1074 \<le> e \<and> e \<le> 971 \<and> (e = - 1074 \<or> 2 ^ 52 \<le> m)
      | Infinity s \<Rightarrow> True
      | NaN \<Rightarrow> True)"

fun is_finite :: "sample \<Rightarrow> bool" where
  "is_finite (Finite s m e) = True"
| "is_finite (Infinity s) = False"
| "is_finite NaN = False"

fun is_zero :: "sample \<Rightarrow> bool" where
  "is_zero (Finite s m e) = (m = 0)"
| "is_zero (Infinity s) = False"
| "is_zero NaN = False"

text \<open>The magnitude of a finite sample, counted in units of \<open>2^-1074\<close>.\<close>

fun magnitude :: "sample \<Rightarrow> nat" where
  "magnitude (Finite s m e) = m * 2 ^ nat (e + 1074)"
| "magnitude (Infinity s) = 0"
| "magnitude NaN = 0"

fun bitlen :: "nat \<Rightarrow> nat" where
  "bitlen n = (if n = 0 then 0 else Suc (bitlen (n div 2)))"

declare bitlen.simps [simp del]

text \<open>Dropping the \<open>d\<close> lowest bits of \<open>m\<close>, rounding to nearest, ties to even.\<close>

definition shift_rne :: "nat \<Rightarrow> nat \<Rightarrow> nat" where
  "shift_rne m d =
     (let r = m div 2 ^ d; t = m mod 2 ^ d; h = 2 ^ (d - 1)
      in if h < t \<or> (t = h \<and> odd r) then r + 1 else r)"

text \<open>
  Rounding the exact value \<open>(-1)^s * m * 2^e\<close> to binary64. The last place of the result is
  \<open>2^q\<close>: 53 bits below the leading bit of \<open>m\<close>, but never below \<open>2^-1074\<close>.
\<close>

definition last_place :: "nat \<Rightarrow> int \<Rightarrow> int" where
  "last_place m e = max (e + int (bitlen m) - 53) (- 1074)"

definition round64 :: "bool \<Rightarrow> nat \<Rightarrow> int \<Rightarrow> sample" where
  "round64 s m e =
     (if m = 0 then Finite s 0 (- 1074)
      else
        let q = last_place m e in
        if q \<le> e then (if 971 < q then Infinity s else Finite s (m * 2 ^ nat (e - q)) q)
        else
          let r = shift_rne m (nat (q - e)) in
          if r = 2 ^ 53 then (if 971 < q + 1 then Infinity s else Finite s (2 ^ 52) (q + 1))
          else if 971 < q then Infinity s
          else Finite s r q)"

definition signed :: "bool \<Rightarrow> nat \<Rightarrow> int" where
  "signed s m = (if s then - int m else int m)"

fun fneg :: "sample \<Rightarrow> sample" where
  "fneg (Finite s m e) = Finite (\<not> s) m e"
| "fneg (Infinity s) = Infinity (\<not> s)"
| "fneg NaN = NaN"

text \<open>
  Addition. A sum that is exactly zero is \<open>+0\<close>, except that \<open>(-0) + (-0) = -0\<close>; opposite
  infinities give NaN.
\<close>

fun fadd :: "sample \<Rightarrow> sample \<Rightarrow> sample" where
  "fadd (Finite s m e) (Finite t n f) =
     (let g = min e f;
          i = signed s (m * 2 ^ nat (e - g)) + signed t (n * 2 ^ nat (f - g))
      in if i = 0 then Finite (s \<and> t) 0 (- 1074) else round64 (i < 0) (nat \<bar>i\<bar>) g)"
| "fadd (Finite s m e) (Infinity t) = Infinity t"
| "fadd (Infinity s) (Finite t n f) = Infinity s"
| "fadd (Infinity s) (Infinity t) = (if s = t then Infinity s else NaN)"
| "fadd NaN b = NaN"
| "fadd a NaN = NaN"

definition fsub :: "sample \<Rightarrow> sample \<Rightarrow> sample" where
  "fsub a b = fadd a (fneg b)"

text \<open>Multiplication. The sign is the exclusive or of the signs; zero times infinity is NaN.\<close>

fun fmul :: "sample \<Rightarrow> sample \<Rightarrow> sample" where
  "fmul (Finite s m e) (Finite t n f) = round64 (s \<noteq> t) (m * n) (e + f)"
| "fmul (Finite s m e) (Infinity t) = (if m = 0 then NaN else Infinity (s \<noteq> t))"
| "fmul (Infinity s) (Finite t n f) = (if n = 0 then NaN else Infinity (s \<noteq> t))"
| "fmul (Infinity s) (Infinity t) = Infinity (s \<noteq> t)"
| "fmul NaN b = NaN"
| "fmul a NaN = NaN"

instantiation sample :: "{plus, minus, times, uminus}"
begin

definition plus_sample :: "sample \<Rightarrow> sample \<Rightarrow> sample" where
  "plus_sample = fadd"

definition minus_sample :: "sample \<Rightarrow> sample \<Rightarrow> sample" where
  "minus_sample = fsub"

definition times_sample :: "sample \<Rightarrow> sample \<Rightarrow> sample" where
  "times_sample = fmul"

definition uminus_sample :: "sample \<Rightarrow> sample" where
  "uminus_sample = fneg"

instance ..

end

text \<open>The literals of the source: \<^verbatim>\<open>0.0\<close>, and \<^verbatim>\<open>0.9997\<close> as the double nearest to it.\<close>

definition lit_0_0 :: sample where
  "lit_0_0 = Finite False 0 (- 1074)"

definition lit_0_9997 :: sample where
  "lit_0_9997 = Finite False 9004497094964570 (- 53)"

definition neg_zero :: sample where
  "neg_zero = Finite True 0 (- 1074)"

definition lit_1_0 :: sample where
  "lit_1_0 = Finite False (2 ^ 52) (- 52)"

definition lit_4_0 :: sample where
  "lit_4_0 = Finite False (2 ^ 52) (- 50)"

definition lit_5_0 :: sample where
  "lit_5_0 = Finite False (5 * 2 ^ 50) (- 50)"

definition dbl_max :: sample where
  "dbl_max = Finite False (2 ^ 53 - 1) 971"

definition dbl_true_min :: sample where
  "dbl_true_min = Finite False 1 (- 1074)"


section \<open>The filter object\<close>

text \<open>
  \<^verbatim>\<open>class dcblocker\<close>: the two history members \<^verbatim>\<open>x_1\<close>, \<^verbatim>\<open>y_1\<close> and the attribute
  \<^verbatim>\<open>bypass\<close>. Inlet and outlet are wiring of the host and carry no filter state.
\<close>

record dcblocker =
  x_1 :: sample
  y_1 :: sample
  bypass :: bool

typedecl atom

type_synonym atoms = "atom list"

text \<open>
  \<^verbatim>\<open>dcblocker(atoms args) {}\<close>: the body is empty, and the members \<^verbatim>\<open>x_1\<close> and \<^verbatim>\<open>y_1\<close>
  are declared without an initialiser, so after construction they hold whatever the storage
  of the object held before. That content is the parameter \<open>mem\<close>. The attribute is declared
  as \<^verbatim>\<open>ATTRIBUTE (bypass, bool, false)\<close>, with default \<^verbatim>\<open>false\<close>.
\<close>

definition dcblocker_ctor :: "atoms \<Rightarrow> sample \<times> sample \<Rightarrow> dcblocker" where
  "dcblocker_ctor args mem = \<lparr>x_1 = fst mem, y_1 = snd mem, bypass = False\<rparr>"

text \<open>\<^verbatim>\<open>METHOD (clear) { x_1 = y_1 = 0.0; } END\<close>\<close>

definition clear :: "dcblocker \<Rightarrow> dcblocker" where
  "clear s = s\<lparr>y_1 := lit_0_0, x_1 := lit_0_0\<rparr>"

text \<open>
  Modelled from the spec: the setter that the macro \<^verbatim>\<open>ATTRIBUTE\<close> of the absent header
  \<^verbatim>\<open>c74_min.h\<close> generates for \<^verbatim>\<open>bypass\<close>. The body given in the source is empty; by the
  specification the setter stores the flag and does not touch the history.
\<close>

definition set_bypass :: "bool \<Rightarrow> dcblocker \<Rightarrow> dcblocker" where
  "set_bypass b s = s\<lparr>bypass := b\<rparr>"

text \<open>\<^verbatim>\<open>sample calculate(sample x)\<close>: the returned sample and the object after the call.\<close>

definition calculate :: "dcblocker \<Rightarrow> sample \<Rightarrow> sample \<times> dcblocker" where
  "calculate s x =
     (if bypass s then (x, s)
      else
        let y = x - x_1 s + y_1 s * lit_0_9997
        in (y, s\<lparr>y_1 := y, x_1 := x\<rparr>))"

text \<open>
  The host calls \<^verbatim>\<open>calculate\<close> once per sample, in time order. \<open>perform\<close> runs a vector of
  samples through the object; \<open>feed\<close> does the same with the bypass attribute set before
  each sample; \<open>state_after\<close> and \<open>output_at\<close> run an unending input stream.
\<close>

fun perform :: "dcblocker \<Rightarrow> sample list \<Rightarrow> sample list \<times> dcblocker" where
  "perform s [] = ([], s)"
| "perform s (x # xs) =
     (let r = calculate s x; rest = perform (snd r) xs in (fst r # fst rest, snd rest))"

fun feed :: "dcblocker \<Rightarrow> (bool \<times> sample) list \<Rightarrow> sample list \<times> dcblocker" where
  "feed s [] = ([], s)"
| "feed s ((b, x) # evs) =
     (let r = calculate (set_bypass b s) x; rest = feed (snd r) evs
      in (fst r # fst rest, snd rest))"



definition fresh :: dcblocker where
  "fresh = \<lparr>x_1 = lit_0_0, y_1 = lit_0_0, bypass = False\<rparr>"

text \<open>An object whose two histories are doubles.\<close>

definition wf_state :: "dcblocker \<Rightarrow> bool" where
  "wf_state s = (wf_sample (x_1 s) \<and> wf_sample (y_1 s))"


text \<open>
  Bounds on magnitudes: \<open>bounded_by b x\<close> says that \<open>x\<close> is a finite double with
  \<open>|x| \<le> |b|\<close>. The two limits are \<open>2^1010\<close> and \<open>2^1023\<close>.
\<close>

definition bounded_by :: "sample \<Rightarrow> sample \<Rightarrow> bool" where
  "bounded_by b x = (wf_sample x \<and> is_finite x \<and> magnitude x \<le> magnitude b)"

definition input_limit :: sample where
  "input_limit = Finite False (2 ^ 52) 958"

definition output_limit :: sample where
  "output_limit = Finite False (2 ^ 52) 971"

definition bounded_state :: "dcblocker \<Rightarrow> bool" where
  "bounded_state s = (bounded_by input_limit (x_1 s) \<and> bounded_by output_limit (y_1 s))"



section \<open>The recurrence over the real numbers\<close>

text \<open>
  The difference equation as the header comment of the source and the specification state it,
  \<open>y(n) = x(n) - x(n-1) + 0.9997 * y(n-1)\<close>, over the real numbers: exact arithmetic and the
  coefficient \<open>0.9997\<close> itself. The history is the pair of the previous input and the previous
  output. It is the reference with which the double arithmetic of \<^verbatim>\<open>calculate\<close> is compared.
\<close>

definition ideal_coeff :: real where
  "ideal_coeff = 9997 / 10000"

definition ideal_calculate :: "real \<times> real \<Rightarrow> real \<Rightarrow> real \<times> (real \<times> real)" where
  "ideal_calculate h x = (let y = x - fst h + snd h * ideal_coeff in (y, (x, y)))"

fun ideal_perform :: "real \<times> real \<Rightarrow> real list \<Rightarrow> real list" where
  "ideal_perform h [] = []"
| "ideal_perform h (x # xs) =
     (let r = ideal_calculate h x in fst r # ideal_perform (snd r) xs)"


section \<open>Bit lengths and rounding\<close>

lemma bitlen_le_iff: "bitlen m \<le> n \<longleftrightarrow> m < 2 ^ n"
proof (induction m arbitrary: n rule: bitlen.induct)
  case (1 m)
  show ?case
  proof (cases "m = 0")
    case True
    then show ?thesis by (simp add: bitlen.simps)
  next
    case False
    show ?thesis
    proof (cases n)
      case 0
      with False show ?thesis by (simp add: bitlen.simps)
    next
      case (Suc k)
      have "bitlen (m div 2) \<le> k \<longleftrightarrow> m div 2 < 2 ^ k"
        using "1.IH" [OF False] .
      moreover have "m div 2 < 2 ^ k \<longleftrightarrow> m < 2 * 2 ^ k"
        by auto
      ultimately show ?thesis
        using False Suc by (simp add: bitlen.simps [of m])
    qed
  qed
qed

lemma bitlen_upper: "m < 2 ^ bitlen m"
  using bitlen_le_iff [of m "bitlen m"] by simp

lemma bitlen_pos: "0 < m \<Longrightarrow> 0 < bitlen m"
  using bitlen_le_iff [of m 0] by (cases "bitlen m") auto

lemma bitlen_lower: "0 < m \<Longrightarrow> 2 ^ (bitlen m - 1) \<le> m"
proof -
  assume "0 < m"
  then have "\<not> bitlen m \<le> bitlen m - 1"
    using bitlen_pos [of m] by arith
  then show ?thesis
    by (simp add: bitlen_le_iff not_less)
qed

lemma bitlen_eq: "2 ^ n \<le> m \<Longrightarrow> m < 2 ^ Suc n \<Longrightarrow> bitlen m = Suc n"
  using bitlen_le_iff [of m "Suc n"] bitlen_le_iff [of m n] by simp

lemma bitlen_shift: "0 < m \<Longrightarrow> bitlen (m * 2 ^ j) = bitlen m + j"
proof -
  assume pos: "0 < m"
  have n: "bitlen m = Suc (bitlen m - 1)"
    using bitlen_pos [OF pos] by simp
  have lo: "2 ^ (bitlen m - 1 + j) \<le> m * 2 ^ j"
    using bitlen_lower [OF pos] by (simp add: power_add)
  have "m * 2 ^ j < 2 ^ bitlen m * 2 ^ j"
    using bitlen_upper [of m] by simp
  then have hi: "m * 2 ^ j < 2 ^ Suc (bitlen m - 1 + j)"
    using n by (metis add_Suc power_add)
  show ?thesis
    using bitlen_eq [OF lo hi] n by simp
qed

lemma div_pow_less: "m < 2 ^ (n + d) \<Longrightarrow> m div 2 ^ d < (2::nat) ^ n"
  by (simp add: less_mult_imp_div_less power_add)

lemma div_pow_ge: "2 ^ (n + d) \<le> m \<Longrightarrow> (2::nat) ^ n \<le> m div 2 ^ d"
  by (simp add: less_eq_div_iff_mult_less_eq power_add)

lemma shift_rne_bounds: "m div 2 ^ d \<le> shift_rne m d \<and> shift_rne m d \<le> m div 2 ^ d + 1"
  by (simp add: shift_rne_def Let_def)

lemma round64_unfold:
  assumes "m \<noteq> 0" and "q = last_place m e"
  shows "round64 s m e =
     (if q \<le> e then (if 971 < q then Infinity s else Finite s (m * 2 ^ nat (e - q)) q)
      else if shift_rne m (nat (q - e)) = 2 ^ 53
        then (if 971 < q + 1 then Infinity s else Finite s (2 ^ 52) (q + 1))
      else if 971 < q then Infinity s
      else Finite s (shift_rne m (nat (q - e))) q)"
  unfolding round64_def Let_def assms(2) [symmetric] using assms(1) by (simp only: if_False)

lemma round64_wf: "wf_sample (round64 s m e)"
proof (cases "m = 0")
  case True
  then show ?thesis by (simp add: round64_def wf_sample_def)
next
  case False
  define L where "L = bitlen m"
  define q where "q = last_place m e"
  have q_eq: "q = max (e + int L - 53) (- 1074)"
    by (simp add: q_def last_place_def L_def)
  have pos: "0 < m" using False by simp
  have q_lo: "- 1074 \<le> q" and q_ge: "e + int L - 53 \<le> q"
    by (simp_all add: q_eq)
  have q_norm: "q \<noteq> - 1074 \<Longrightarrow> q = e + int L - 53"
    by (simp add: q_eq max_def split: if_splits)
  note unf = round64_unfold [OF False q_def, of s]
  show ?thesis
  proof (cases "q \<le> e")
    case True
    define j where "j = nat (e - q)"
    have len: "bitlen (m * 2 ^ j) = L + j"
      using bitlen_shift [OF pos] by (simp add: L_def)
    have "L + j \<le> 53"
      using q_ge True by (simp add: j_def)
    then have hi: "m * 2 ^ j < 2 ^ 53"
      using len bitlen_le_iff [of "m * 2 ^ j" 53] by simp
    have lo: "2 ^ 52 \<le> m * 2 ^ j" if "q \<noteq> - 1074"
    proof -
      have "L + j = 53"
        using q_norm [OF that] True by (simp add: j_def)
      then have "\<not> bitlen (m * 2 ^ j) \<le> 52"
        using len by simp
      then show ?thesis
        by (simp add: bitlen_le_iff not_less)
    qed
    show ?thesis
      using True hi lo q_lo unf by (auto simp: wf_sample_def j_def)
  next
    case False
    define d where "d = nat (q - e)"
    define r where "r = shift_rne m d"
    have "L \<le> 53 + d"
      using q_ge False by (simp add: d_def)
    then have "(2::nat) ^ L \<le> 2 ^ (53 + d)"
      by (simp add: power_increasing)
    moreover have "m < 2 ^ L"
      using bitlen_upper [of m] by (simp add: L_def)
    ultimately have "m < 2 ^ (53 + d)"
      by (rule order_less_le_trans [rotated])
    then have "m div 2 ^ d < 2 ^ 53"
      by (rule div_pow_less)
    then have hi: "r \<le> 2 ^ 53"
      using shift_rne_bounds [of m d] by (simp add: r_def)
    have lo: "2 ^ 52 \<le> r" if "q \<noteq> - 1074"
    proof -
      have "L = 53 + d"
        using q_norm [OF that] False by (simp add: d_def)
      then have "2 ^ (52 + d) \<le> m"
        using bitlen_lower [OF pos] by (simp add: L_def)
      then have "2 ^ 52 \<le> m div 2 ^ d"
        by (rule div_pow_ge)
      then show ?thesis
        using shift_rne_bounds [of m d] by (simp add: r_def)
    qed
    show ?thesis
      using False hi lo q_lo unf by (auto simp: wf_sample_def d_def r_def)
  qed
qed

lemma round64_exact:
  assumes wf: "wf_sample (Finite s m e)" and pos: "0 < m"
  shows "round64 s (m * 2 ^ j) (e - int j) = Finite s m e"
proof -
  define q where "q = last_place (m * 2 ^ j) (e - int j)"
  have nz: "m * 2 ^ j \<noteq> 0" using pos by simp
  have m_hi: "m < 2 ^ 53" and e_lo: "- 1074 \<le> e" and e_hi: "e \<le> 971"
    and full: "e = - 1074 \<or> 2 ^ 52 \<le> m"
    using wf by (simp_all add: wf_sample_def)
  have len: "bitlen (m * 2 ^ j) = bitlen m + j"
    by (rule bitlen_shift [OF pos])
  have le53: "bitlen m \<le> 53"
    using m_hi by (simp add: bitlen_le_iff)
  have "bitlen m = 53" if "2 ^ 52 \<le> m"
    using that m_hi bitlen_eq [of 52 m] by simp
  then have q: "q = e"
    using full le53 e_lo by (auto simp: q_def last_place_def len)
  show ?thesis
  proof (cases "j = 0")
    case True
    then show ?thesis
      using round64_unfold [OF nz q_def, of s] q e_hi by simp
  next
    case False
    have h: "(0::nat) < 2 ^ (j - 1)" by simp
    have "shift_rne (m * 2 ^ j) j = m"
      using h by (simp add: shift_rne_def Let_def)
    then show ?thesis
      using round64_unfold [OF nz q_def, of s] q e_hi m_hi False by simp
  qed
qed


section \<open>Arithmetic with zero and NaN\<close>

lemma signed_simps:
  "signed s 0 = 0"
  "signed s m = 0 \<longleftrightarrow> m = 0"
  "signed s m < 0 \<longleftrightarrow> s \<and> 0 < m"
  "nat \<bar>signed s m\<bar> = m"
  "signed s m + 0 = signed s m"
  by (simp_all add: signed_def)

lemma fadd_zero_right:
  assumes wf: "wf_sample (Finite s m e)"
  shows "fadd (Finite s m e) (Finite t 0 (- 1074)) =
           (if m = 0 then Finite (s \<and> t) 0 (- 1074) else Finite s m e)"
proof (cases "m = 0")
  case True
  then show ?thesis by (simp add: signed_simps)
next
  case False
  define j where "j = nat (e + 1074)"
  have e_lo: "- 1074 \<le> e"
    using wf by (simp add: wf_sample_def)
  then have g: "min e (- 1074) = - 1074" and ej: "- 1074 = e - int j"
    by (simp_all add: j_def)
  have "fadd (Finite s m e) (Finite t 0 (- 1074)) = round64 s (m * 2 ^ j) (- 1074)"
    using False by (simp add: g Let_def signed_simps j_def)
  also have "\<dots> = Finite s m e"
    unfolding ej using False by (intro round64_exact [OF wf]) simp
  finally show ?thesis
    using False by simp
qed

lemma fadd_zero_left:
  assumes wf: "wf_sample (Finite s m e)"
  shows "fadd (Finite t 0 (- 1074)) (Finite s m e) =
           (if m = 0 then Finite (t \<and> s) 0 (- 1074) else Finite s m e)"
proof (cases "m = 0")
  case True
  then show ?thesis by (simp add: signed_simps)
next
  case False
  define j where "j = nat (e + 1074)"
  have e_lo: "- 1074 \<le> e"
    using wf by (simp add: wf_sample_def)
  then have g: "min (- 1074) e = - 1074" and ej: "- 1074 = e - int j"
    by (simp_all add: j_def)
  have "fadd (Finite t 0 (- 1074)) (Finite s m e) = round64 s (m * 2 ^ j) (- 1074)"
    using False by (simp add: g Let_def signed_simps j_def)
  also have "\<dots> = Finite s m e"
    unfolding ej using False by (intro round64_exact [OF wf]) simp
  finally show ?thesis
    using False by simp
qed

lemma wf_zero_exp: "wf_sample (Finite s 0 e) \<Longrightarrow> e = - 1074"
  by (simp add: wf_sample_def)

lemma sub_zero: "wf_sample x \<Longrightarrow> x - lit_0_0 = x"
proof (cases x)
  case (Finite s m e)
  assume "wf_sample x"
  then show ?thesis
    using Finite fadd_zero_right [of s m e True] wf_zero_exp [of s e]
    by (auto simp: minus_sample_def fsub_def lit_0_0_def)
qed (simp_all add: minus_sample_def fsub_def lit_0_0_def)

lemma add_zero:
  "wf_sample x \<Longrightarrow> x + lit_0_0 = (if x = neg_zero then lit_0_0 else x)"
proof (cases x)
  case (Finite s m e)
  assume "wf_sample x"
  then show ?thesis
    using Finite fadd_zero_right [of s m e False] wf_zero_exp [of s e]
    by (auto simp: plus_sample_def lit_0_0_def neg_zero_def)
qed (simp_all add: plus_sample_def lit_0_0_def neg_zero_def)



lemma zero_times_coeff: "lit_0_0 * lit_0_9997 = lit_0_0"
  by (simp add: times_sample_def lit_0_0_def lit_0_9997_def round64_def)

lemma fadd_NaN_right: "fadd a NaN = NaN"
  by (cases a) simp_all

lemma fmul_NaN_right: "fmul a NaN = NaN"
  by (cases a) simp_all

lemma NaN_arith:
  "NaN + a = NaN" "a + NaN = NaN" "NaN - a = NaN" "a - NaN = NaN" "NaN * a = NaN" "a * NaN = NaN"
  by (simp_all add: plus_sample_def minus_sample_def times_sample_def fsub_def
      fadd_NaN_right fmul_NaN_right)

lemma fadd_wf: "wf_sample (fadd a b)"
  by (cases a; cases b) (simp_all add: Let_def round64_wf, simp_all add: wf_sample_def)

lemma fmul_wf: "wf_sample (fmul a b)"
  by (cases a; cases b) (simp_all add: round64_wf, simp_all add: wf_sample_def)

lemma arith_wf: "wf_sample (a + b)" "wf_sample (a - b)" "wf_sample (a * b)"
  by (simp_all add: plus_sample_def minus_sample_def times_sample_def fsub_def fadd_wf fmul_wf)


lemma zero_sub:
  assumes "wf_sample x" and "\<not> is_zero x"
  shows "lit_0_0 - x = - x"
proof (cases x)
  case (Finite s m e)
  then have "wf_sample (Finite (\<not> s) m e)" and "m \<noteq> 0"
    using assms by (simp_all add: wf_sample_def)
  then show ?thesis
    using fadd_zero_left [of "\<not> s" m e False]
    by (simp add: Finite minus_sample_def fsub_def lit_0_0_def uminus_sample_def)
qed (simp_all add: minus_sample_def fsub_def lit_0_0_def uminus_sample_def)


section \<open>Rounding and magnitude\<close>

lemma pow2_split:
  "a \<le> b \<Longrightarrow> b \<le> c \<Longrightarrow> (2::nat) ^ nat (c - a) = 2 ^ nat (c - b) * 2 ^ nat (b - a)"
proof -
  assume "a \<le> b" and "b \<le> c"
  then have "nat (c - a) = nat (c - b) + nat (b - a)"
    by linarith
  then show ?thesis
    by (simp add: power_add)
qed

lemma shift_rne_le:
  assumes "M \<le> T * 2 ^ d" and "0 < d"
  shows "shift_rne M d \<le> T"
proof (cases "M div 2 ^ d < T")
  case True
  then show ?thesis
    using shift_rne_bounds [of M d] by simp
next
  case False
  have "M div 2 ^ d \<le> T"
    using assms(1) by (simp add: div_le_mono [of M "T * 2 ^ d" "2 ^ d", simplified])
  with False have q: "M div 2 ^ d = T" by simp
  have "M div 2 ^ d * 2 ^ d \<le> M"
    by (rule div_times_less_eq_dividend)
  then have "T * 2 ^ d \<le> M"
    using q by simp
  with assms(1) have "M = T * 2 ^ d" by simp
  then have "M mod 2 ^ d = 0" by simp
  moreover have "(0::nat) < 2 ^ (d - 1)" by simp
  ultimately show ?thesis
    using q by (simp add: shift_rne_def Let_def)
qed


lemma shift_rne_less:
  assumes "M + 2 ^ (d - 1) < T * 2 ^ d" and "0 < d"
  shows "shift_rne M d < T"
proof -
  have half: "(2::nat) ^ d = 2 ^ (d - 1) + 2 ^ (d - 1)"
    using assms(2) by (cases d) simp_all
  have "M < T * 2 ^ d"
    using assms(1) by simp
  then have r0: "M div 2 ^ d < T"
    by (simp add: less_mult_imp_div_less)
  show ?thesis
  proof (cases "M div 2 ^ d + 1 < T")
    case True
    then show ?thesis
      using shift_rne_bounds [of M d] by simp
  next
    case False
    with r0 have q: "T = M div 2 ^ d + 1" by simp
    define a b P where "a = M div 2 ^ d" and "b = M mod 2 ^ d" and "P = (2::nat) ^ d"
    have M: "M = a * P + b"
      unfolding a_def b_def P_def by (rule div_mult_mod_eq [symmetric])
    have "M + 2 ^ (d - 1) < (a + 1) * P"
      using assms(1) q by (simp add: a_def P_def)
    also have "\<dots> = a * P + P"
      by (simp add: algebra_simps)
    finally have "b + 2 ^ (d - 1) < P"
      unfolding M by simp
    then have "M mod 2 ^ d + 2 ^ (d - 1) < 2 ^ d"
      by (simp add: b_def P_def)
    then have "M mod 2 ^ d < 2 ^ (d - 1)"
      using half by simp
    then show ?thesis
      using q by (simp add: shift_rne_def Let_def)
  qed
qed

text \<open>
  Rounding does not step over a double: if the exact value \<open>M * 2^E\<close> is at most the double
  \<open>m * 2^e\<close>, so is the rounded value; if it is below by more than half a unit of \<open>2^e\<close>, the
  rounded value is strictly below.
\<close>

lemma round64_bounded_gen:
  assumes wf: "wf_sample (Finite t m e)" and Ee: "E \<le> e" and le: "M \<le> m * 2 ^ nat (e - E)"
  shows "is_finite (round64 s M E)
       \<and> magnitude (round64 s M E) \<le> m * 2 ^ nat (e + 1074)
       \<and> (E < e \<and> M + 2 ^ (nat (e - E) - 1) < m * 2 ^ nat (e - E)
            \<longrightarrow> magnitude (round64 s M E) < m * 2 ^ nat (e + 1074))"
proof (cases "M = 0")
  case True
  have "0 < m" if "M + 2 ^ (nat (e - E) - 1) < m * 2 ^ nat (e - E)"
    using that by (cases m) simp_all
  then show ?thesis
    using True by (auto simp: round64_def)
next
  case False
  define q where "q = last_place M E"
  define j where "j = nat (e - E)"
  have m_hi: "m < 2 ^ 53" and e_lo: "- 1074 \<le> e" and e_hi: "e \<le> 971"
    using wf by (simp_all add: wf_sample_def)
  have "m * 2 ^ j < 2 ^ 53 * 2 ^ j"
    using m_hi by simp
  moreover have "M \<le> m * 2 ^ j"
    using le by (simp add: j_def)
  ultimately have "M < 2 ^ 53 * 2 ^ j"
    by (rule order_le_less_trans [rotated])
  moreover have "(2::nat) ^ (53 + j) = 2 ^ 53 * 2 ^ j"
    by (rule power_add)
  ultimately have "M < 2 ^ (53 + j)"
    by (simp only:)
  then have "bitlen M \<le> 53 + j"
    by (simp add: bitlen_le_iff)
  then have "E + int (bitlen M) - 53 \<le> e"
    using Ee by (simp add: j_def)
  then have qe: "q \<le> e" and q_lo: "- 1074 \<le> q"
    using e_lo by (simp_all add: q_def last_place_def)
  note unf = round64_unfold [OF False q_def, of s]
  show ?thesis
  proof (cases "q \<le> E")
    case True
    have l: "M * 2 ^ nat (E - q) * 2 ^ nat (q + 1074) = M * 2 ^ nat (E + 1074)"
      using pow2_split [of "- 1074" q E] True q_lo by simp
    have r: "m * 2 ^ nat (e - E) * 2 ^ nat (E + 1074) = m * 2 ^ nat (e + 1074)"
      using pow2_split [of "- 1074" E e] True q_lo Ee by simp
    have "M * 2 ^ nat (E + 1074) \<le> m * 2 ^ nat (e - E) * 2 ^ nat (E + 1074)"
      using le by simp
    then have mag_le: "M * 2 ^ nat (E - q) * 2 ^ nat (q + 1074) \<le> m * 2 ^ nat (e + 1074)"
      unfolding l r .
    have mag_lt: "M * 2 ^ nat (E - q) * 2 ^ nat (q + 1074) < m * 2 ^ nat (e + 1074)"
      if "M + 2 ^ (nat (e - E) - 1) < m * 2 ^ nat (e - E)"
    proof -
      have "M * 2 ^ nat (E + 1074) < m * 2 ^ nat (e - E) * 2 ^ nat (E + 1074)"
        using that by simp
      then show ?thesis
        unfolding l r .
    qed
    show ?thesis
      using True qe e_hi unf mag_le mag_lt by simp
  next
    case False
    define d where "d = nat (q - E)"
    define T where "T = m * 2 ^ nat (e - q)"
    define r where "r = shift_rne M d"
    have d: "0 < d" using False by (simp add: d_def)
    have Td: "T * 2 ^ d = m * 2 ^ nat (e - E)"
      using pow2_split [of E q e] False qe by (simp add: T_def d_def mult.assoc)
    have "M \<le> T * 2 ^ d"
      using le Td by simp
    then have rT: "r \<le> T"
      unfolding r_def by (rule shift_rne_le [OF _ d])
    have rT_strict: "r < T" if "M + 2 ^ (nat (e - E) - 1) < m * 2 ^ nat (e - E)"
    proof -
      have "d - 1 \<le> nat (e - E) - 1"
        using qe by (simp add: d_def)
      then have "(2::nat) ^ (d - 1) \<le> 2 ^ (nat (e - E) - 1)"
        by (rule power_increasing) simp
      then have "M + 2 ^ (d - 1) \<le> M + 2 ^ (nat (e - E) - 1)"
        by (rule add_left_mono)
      also have "\<dots> < m * 2 ^ nat (e - E)"
        by (rule that)
      also have "\<dots> = T * 2 ^ d"
        by (rule Td [symmetric])
      finally have "M + 2 ^ (d - 1) < T * 2 ^ d" .
      then show ?thesis
        unfolding r_def by (rule shift_rne_less [OF _ d])
    qed
    have mag: "T * 2 ^ nat (q + 1074) = m * 2 ^ nat (e + 1074)"
      using pow2_split [of "- 1074" q e] qe q_lo by (simp add: T_def mult.assoc)
    have bound: "r * 2 ^ nat (q + 1074) \<le> m * 2 ^ nat (e + 1074)"
      using rT mag by (metis mult_le_mono1)
    have bound_strict: "r * 2 ^ nat (q + 1074) < m * 2 ^ nat (e + 1074)"
      if "M + 2 ^ (nat (e - E) - 1) < m * 2 ^ nat (e - E)"
    proof -
      have "r * 2 ^ nat (q + 1074) < T * 2 ^ nat (q + 1074)"
        using rT_strict [OF that] by simp
      then show ?thesis
        using mag by simp
    qed
    show ?thesis
    proof (cases "r = 2 ^ 53")
      case True
      have "q \<noteq> e"
      proof
        assume "q = e"
        then have "T = m" by (simp add: T_def)
        with rT True m_hi show False by simp
      qed
      with qe have q1: "q + 1 \<le> e" by simp
      have "nat (q + 1 + 1074) = Suc (nat (q + 1074))"
        using q_lo by simp
      then have "(2::nat) ^ 52 * 2 ^ nat (q + 1 + 1074) = 2 ^ 53 * 2 ^ nat (q + 1074)"
        by simp
      then show ?thesis
        using True False q1 e_hi unf bound bound_strict by (simp add: r_def d_def)
    next
      case neq: False
      show ?thesis
        using neq False qe e_hi unf bound bound_strict by (simp add: r_def d_def)
    qed
  qed
qed

lemma round64_bounded:
  assumes "wf_sample (Finite t m e)" and "E \<le> e" and "M \<le> m * 2 ^ nat (e - E)"
  shows "is_finite (round64 s M E) \<and> magnitude (round64 s M E) \<le> m * 2 ^ nat (e + 1074)"
  using round64_bounded_gen [OF assms] by simp



lemma round64_sign: "round64 s M E = Finite t m e \<Longrightarrow> t = s"
  by (simp add: round64_def Let_def split: if_splits)



lemma finite_cases:
  assumes "wf_sample y" and "is_finite y"
  obtains s m e where "y = Finite s m e" and "m < 2 ^ 53" and "- 1074 \<le> e" and "e \<le> 971"
    and "e = - 1074 \<or> 2 ^ 52 \<le> m"
  using assms by (cases y) (simp_all add: wf_sample_def)




lemma exponent_mono:
  assumes wa: "wf_sample (Finite s m e)" and wb: "wf_sample (Finite t n f)"
    and le: "m * 2 ^ nat (e + 1074) \<le> n * 2 ^ nat (f + 1074)"
  shows "e \<le> f"
proof (rule ccontr)
  assume "\<not> e \<le> f"
  then have fe: "f + 1 \<le> e" by simp
  have f_lo: "- 1074 \<le> f" and n_hi: "n < 2 ^ 53"
    using wb by (simp_all add: wf_sample_def)
  have "2 ^ 52 \<le> m"
    using wa fe f_lo by (simp add: wf_sample_def)
  then have "2 ^ 52 * 2 ^ nat (e + 1074) \<le> m * 2 ^ nat (e + 1074)"
    by (rule mult_le_mono1)
  moreover have "(2::nat) ^ nat (f + 1 + 1074) \<le> 2 ^ nat (e + 1074)"
    using fe by (intro power_increasing) simp_all
  then have "2 ^ 52 * (2::nat) ^ nat (f + 1 + 1074) \<le> 2 ^ 52 * 2 ^ nat (e + 1074)"
    by (rule mult_le_mono2)
  moreover have "nat (f + 1 + 1074) = Suc (nat (f + 1074))"
    using f_lo by simp
  then have "2 ^ 52 * (2::nat) ^ nat (f + 1 + 1074) = 2 ^ 53 * 2 ^ nat (f + 1074)"
    by simp
  moreover have "n * 2 ^ nat (f + 1074) < 2 ^ 53 * 2 ^ nat (f + 1074)"
    using n_hi by simp
  ultimately show False
    using le by linarith
qed

lemma abs_signed_sum: "nat \<bar>signed s a + signed t b\<bar> \<le> a + b"
proof -
  have "\<bar>signed s a + signed t b\<bar> \<le> \<bar>signed s a\<bar> + \<bar>signed t b\<bar>"
    by (rule abs_triangle_ineq)
  also have "\<dots> = int (a + b)"
    by (simp add: signed_def)
  finally show ?thesis
    by linarith
qed

lemma fadd_bounded:
  assumes wa: "wf_sample a" and fa: "is_finite a" and wb: "wf_sample b" and fb: "is_finite b"
    and wt: "wf_sample (Finite t n f)"
    and le: "magnitude a + magnitude b \<le> n * 2 ^ nat (f + 1074)"
  shows "is_finite (fadd a b) \<and> magnitude (fadd a b) \<le> n * 2 ^ nat (f + 1074)"
proof -
  obtain s m e where a: "a = Finite s m e" using fa by (cases a) simp_all
  obtain s' m' e' where b: "b = Finite s' m' e'" using fb by (cases b) simp_all
  define g where "g = min e e'"
  define i where "i = signed s (m * 2 ^ nat (e - g)) + signed s' (m' * 2 ^ nat (e' - g))"
  have e_lo: "- 1074 \<le> e" and e'_lo: "- 1074 \<le> e'"
    using wa wb by (simp_all add: a b wf_sample_def)
  then have g_lo: "- 1074 \<le> g" and ge: "g \<le> e" and ge': "g \<le> e'"
    by (simp_all add: g_def)
  have "m * 2 ^ nat (e + 1074) \<le> n * 2 ^ nat (f + 1074)"
    using le by (simp add: a)
  then have "e \<le> f"
    by (rule exponent_mono [OF wa [unfolded a] wt])
  with ge have gf: "g \<le> f" by simp
  have unf: "fadd a b = (if i = 0 then Finite (s \<and> s') 0 (- 1074) else round64 (i < 0) (nat \<bar>i\<bar>) g)"
    by (simp add: a b Let_def g_def i_def)
  show ?thesis
  proof (cases "i = 0")
    case True
    then show ?thesis by (simp add: unf)
  next
    case False
    define S where "S = m * 2 ^ nat (e - g) + m' * 2 ^ nat (e' - g)"
    have iS: "nat \<bar>i\<bar> \<le> S"
      unfolding i_def S_def by (rule abs_signed_sum)
    have "S * 2 ^ nat (g + 1074) = m * (2 ^ nat (e - g) * 2 ^ nat (g + 1074))
        + m' * (2 ^ nat (e' - g) * 2 ^ nat (g + 1074))"
      by (simp add: S_def algebra_simps)
    also have "\<dots> = m * 2 ^ nat (e + 1074) + m' * 2 ^ nat (e' + 1074)"
      using pow2_split [of "- 1074" g e] pow2_split [of "- 1074" g e'] g_lo ge ge' by simp
    also have "\<dots> \<le> n * 2 ^ nat (f + 1074)"
      using le by (simp add: a b)
    also have "\<dots> = n * 2 ^ nat (f - g) * 2 ^ nat (g + 1074)"
      using pow2_split [of "- 1074" g f] g_lo gf by simp
    finally have "S \<le> n * 2 ^ nat (f - g)"
      by simp
    with iS have "nat \<bar>i\<bar> \<le> n * 2 ^ nat (f - g)"
      by (rule order_trans)
    from round64_bounded [OF wt gf this] show ?thesis
      using False by (simp add: unf)
  qed
qed

lemma fneg_props:
  "wf_sample (fneg a) = wf_sample a" "is_finite (fneg a) = is_finite a"
  "magnitude (fneg a) = magnitude a"
  by (cases a; simp add: wf_sample_def)+

lemma mul_coeff_bounded:
  assumes wf: "wf_sample y" and fin: "is_finite y"
    and le: "magnitude y \<le> 2 ^ 52 * 2 ^ nat (971 + 1074)"
  shows "is_finite (y * lit_0_9997)
       \<and> magnitude (y * lit_0_9997) \<le> 4095 * 2 ^ 41 * 2 ^ nat (970 + 1074)"
proof -
  from wf fin obtain s m e where y: "y = Finite s m e" and e_lo: "- 1074 \<le> e"
    and e_hi: "e \<le> 971"
    by (rule finite_cases)
  define K :: nat where "K = 9004497094964570"
  define J where "J = (2::nat) ^ nat (1023 - e)"
  have wt: "wf_sample (Finite False (4095 * 2 ^ 41) 970)"
    by (simp add: wf_sample_def)
  have prod: "y * lit_0_9997 = round64 s (m * K) (e - 53)"
    by (simp add: y times_sample_def lit_0_9997_def K_def)
  have "(2::nat) ^ 52 * 2 ^ nat (971 + 1074) = 2 ^ nat (1023 - - 1074)"
    by simp
  also have "\<dots> = J * 2 ^ nat (e + 1074)"
    unfolding J_def using pow2_split [of "- 1074" e 1023] e_lo e_hi by simp
  finally have "m * 2 ^ nat (e + 1074) \<le> J * 2 ^ nat (e + 1074)"
    using le by (simp add: y)
  then have mJ: "m \<le> J"
    by simp
  have "K \<le> 4095 * 2 ^ 41"
    by (simp add: K_def)
  with mJ have "m * K \<le> J * (4095 * 2 ^ 41)"
    by (rule mult_le_mono)
  moreover have "nat (970 - (e - 53)) = nat (1023 - e)"
    by simp
  ultimately have "m * K \<le> 4095 * 2 ^ 41 * 2 ^ nat (970 - (e - 53))"
    by (simp add: J_def mult.commute)
  moreover have "e - 53 \<le> 970"
    using e_hi by simp
  ultimately show ?thesis
    unfolding prod by (intro round64_bounded [OF wt])
qed

lemma bounded_step:
  assumes x: "bounded_by input_limit x" and x1: "bounded_by input_limit x1"
    and y1: "bounded_by output_limit y1"
  shows "bounded_by output_limit (x - x1 + y1 * lit_0_9997)"
proof -
  define U where "U = (2::nat) ^ nat (958 + 1074)"
  have X: "magnitude input_limit = 2 ^ 52 * U"
    by (simp add: input_limit_def U_def)
  have Y: "magnitude output_limit = 2 ^ 52 * 2 ^ nat (971 + 1074)"
    by (simp add: output_limit_def)
  have w2: "wf_sample (Finite False (2 ^ 52) 959)" and wY: "wf_sample (Finite False (2 ^ 52) 971)"
    by (simp_all add: wf_sample_def)
  have m2: "(2::nat) ^ 52 * 2 ^ nat (959 + 1074) = 2 ^ 53 * U"
    and mT: "4095 * 2 ^ 41 * (2::nat) ^ nat (970 + 1074) = 4095 * 2 ^ 53 * U"
    and mY: "(2::nat) ^ 52 * 2 ^ nat (971 + 1074) = 2 ^ 65 * U"
    by (simp_all add: U_def)
  have "magnitude x + magnitude (fneg x1) \<le> 2 ^ 52 * 2 ^ nat (959 + 1074)"
    unfolding m2 using x x1 by (simp add: bounded_by_def fneg_props X)
  then have d: "is_finite (x - x1) \<and> magnitude (x - x1) \<le> 2 ^ 53 * U"
    unfolding minus_sample_def fsub_def m2 [symmetric]
    using x x1 by (intro fadd_bounded [OF _ _ _ _ w2]) (simp_all add: bounded_by_def fneg_props)
  have p: "is_finite (y1 * lit_0_9997) \<and> magnitude (y1 * lit_0_9997) \<le> 4095 * 2 ^ 53 * U"
    unfolding mT [symmetric]
    using y1 by (intro mul_coeff_bounded) (simp_all add: bounded_by_def Y)
  have "magnitude (x - x1) + magnitude (y1 * lit_0_9997) \<le> 2 ^ 52 * 2 ^ nat (971 + 1074)"
    unfolding mY using d p by simp
  then have "is_finite (x - x1 + y1 * lit_0_9997)
      \<and> magnitude (x - x1 + y1 * lit_0_9997) \<le> 2 ^ 52 * 2 ^ nat (971 + 1074)"
    unfolding plus_sample_def
    using d p by (intro fadd_bounded [OF _ _ _ _ wY]) (simp_all add: arith_wf)
  then show ?thesis
    by (simp add: bounded_by_def Y arith_wf)
qed


section \<open>Evaluating the arithmetic on literals\<close>

lemma bitlen_eval:
  "bitlen 0 = 0"
  "bitlen (Suc 0) = Suc 0"
  "bitlen 1 = Suc 0"
  "bitlen (numeral n) = Suc (bitlen (numeral n div 2))"
  by (simp_all add: bitlen.simps)

lemmas arith_eval = plus_sample_def minus_sample_def times_sample_def uminus_sample_def fsub_def
  round64_def last_place_def shift_rne_def signed_def Let_def bitlen_eval

lemmas lits = neg_zero_def lit_0_0_def lit_0_9997_def lit_1_0_def
  lit_4_0_def lit_5_0_def dbl_max_def dbl_true_min_def

lemma wf_lits:
  "wf_sample lit_0_0" "wf_sample neg_zero" "wf_sample lit_0_9997" "wf_sample lit_1_0"
  "wf_sample lit_4_0" "wf_sample lit_5_0" "wf_sample dbl_max" "wf_sample dbl_true_min"
  by (simp_all add: wf_sample_def lits)


text \<open>The literal \<^verbatim>\<open>0.9997\<close> is within half a unit in the last place of \<open>9997/10000\<close>.\<close>

lemma lit_0_9997_nearest:
  "\<exists>m. lit_0_9997 = Finite False m (- 53) \<and> 2 ^ 52 \<le> m \<and> m < 2 ^ 53
     \<and> \<bar>10000 * int m - 9997 * 2 ^ 53\<bar> \<le> 5000"
  by (simp add: lit_0_9997_def)

lemma prod_one: "lit_1_0 * lit_0_9997 = lit_0_9997"
  by (simp add: arith_eval lits)





lemma coeff_minus_one: "- lit_1_0 + lit_0_9997 = Finite True 5534023222112256 (- 64)"
  by (simp add: arith_eval lits)



lemma overflow_evals:
  "- dbl_max - dbl_max = Infinity True"
  "dbl_max * lit_0_9997 = Finite False 9004497094964569 971"
  "dbl_max - (- dbl_max) = Infinity False"
  "Infinity True * lit_0_9997 = Infinity True"
  "Infinity True + Finite False 9004497094964569 971 = Infinity True"
  "Infinity False + Infinity True = NaN"
  by (simp_all add: arith_eval lits)

lemma bounded_one: "bounded_by input_limit lit_1_0"
  by (simp add: bounded_by_def input_limit_def lit_1_0_def wf_sample_def)


section \<open>Steps of the filter\<close>

lemma calculate_step:
  assumes "\<not> bypass s"
  shows "calculate s x =
     (x - x_1 s + y_1 s * lit_0_9997,
      \<lparr>x_1 = x, y_1 = x - x_1 s + y_1 s * lit_0_9997, bypass = False\<rparr>)"
  using assms by (simp add: calculate_def Let_def)

lemma first_output:
  assumes "wf_sample x"
  shows "x - lit_0_0 + lit_0_0 * lit_0_9997 = (if x = neg_zero then lit_0_0 else x)"
  using assms by (simp add: sub_zero add_zero zero_times_coeff)

lemma calculate_clear:
  assumes "\<not> bypass s" and "wf_sample x"
  shows "calculate (clear s) x =
     (if x = neg_zero then lit_0_0 else x,
      \<lparr>x_1 = x, y_1 = (if x = neg_zero then lit_0_0 else x), bypass = False\<rparr>)"
  using assms by (simp add: calculate_def clear_def first_output Let_def)

lemma fresh_is_clear: "fresh = clear fresh"
  by (simp add: fresh_def clear_def)

lemma calculate_fresh:
  assumes "wf_sample x" and "x \<noteq> neg_zero"
  shows "calculate fresh x = (x, \<lparr>x_1 = x, y_1 = x, bypass = False\<rparr>)"
proof -
  have "\<not> bypass fresh" by (simp add: fresh_def)
  from calculate_clear [OF this assms(1)] show ?thesis
    using assms(2) fresh_is_clear by simp
qed

lemma calculate_contaminated:
  assumes "y_1 s = NaN" and "\<not> bypass s"
  shows "calculate s x = (NaN, s\<lparr>y_1 := NaN, x_1 := x\<rparr>)"
  using assms by (simp add: calculate_def NaN_arith)

lemma feed_contaminated:
  assumes "y_1 s = NaN"
  shows "y_1 (snd (feed s evs)) = NaN \<and> length (fst (feed s evs)) = length evs
       \<and> (\<forall>i < length evs. \<not> fst (evs ! i) \<longrightarrow> fst (feed s evs) ! i = NaN)"
  using assms
proof (induction evs arbitrary: s)
  case Nil
  then show ?case by simp
next
  case (Cons ev evs)
  obtain b x where ev: "ev = (b, x)" by (cases ev)
  define t where "t = snd (calculate (set_bypass b s) x)"
  have out: "\<not> b \<Longrightarrow> fst (calculate (set_bypass b s) x) = NaN"
    using Cons.prems by (simp add: calculate_contaminated set_bypass_def)
  have "y_1 t = NaN"
    using Cons.prems by (cases b) (simp_all add: t_def calculate_def set_bypass_def NaN_arith)
  note ih = Cons.IH [OF this]
  show ?case
    using ih out by (auto simp: ev t_def Let_def nth_Cons split: nat.splits)
qed













lemma bounded_by_zero: "bounded_by b lit_0_0"
  by (simp add: bounded_by_def lit_0_0_def wf_sample_def)

lemma bounded_state_clear: "bounded_state (clear s)"
  by (simp add: bounded_state_def clear_def bounded_by_zero)

lemma calculate_bounded:
  assumes "bounded_state s" and "bounded_by input_limit x"
  shows "is_finite (fst (calculate s x)) \<and> bounded_state (snd (calculate s x))"
proof (cases "bypass s")
  case True
  then show ?thesis
    using assms by (simp add: calculate_def bounded_by_def)
next
  case False
  have "bounded_by output_limit (x - x_1 s + y_1 s * lit_0_9997)"
    using assms by (intro bounded_step) (simp_all add: bounded_state_def)
  then show ?thesis
    using False assms(2) by (simp add: calculate_step bounded_state_def) (simp add: bounded_by_def)
qed

lemma feed_bounded:
  assumes "bounded_state s" and "\<forall>ev \<in> set evs. bounded_by input_limit (snd ev)"
  shows "(\<forall>y \<in> set (fst (feed s evs)). is_finite y) \<and> bounded_state (snd (feed s evs))"
  using assms
proof (induction evs arbitrary: s)
  case Nil
  then show ?case by simp
next
  case (Cons ev evs)
  obtain b x where ev: "ev = (b, x)" by (cases ev)
  have "bounded_state (set_bypass b s)"
    using Cons.prems(1) by (simp add: bounded_state_def set_bypass_def)
  moreover have "bounded_by input_limit x"
    using Cons.prems(2) by (simp add: ev)
  ultimately have step: "is_finite (fst (calculate (set_bypass b s) x))
      \<and> bounded_state (snd (calculate (set_bypass b s) x))"
    by (rule calculate_bounded)
  have "\<forall>ev \<in> set evs. bounded_by input_limit (snd ev)"
    using Cons.prems(2) by simp
  with step have "(\<forall>y \<in> set (fst (feed (snd (calculate (set_bypass b s) x)) evs)). is_finite y)
      \<and> bounded_state (snd (feed (snd (calculate (set_bypass b s) x)) evs))"
    by (intro Cons.IH) simp_all
  with step show ?case
    by (simp add: ev Let_def)
qed



section \<open>The recurrence over the real numbers: step response\<close>

text \<open>
  In exact arithmetic the response to the constant input \<open>c\<close> is \<open>c * 0.9997^n\<close>: its magnitude
  decreases strictly and tends to \<open>0\<close>.
\<close>

lemma ideal_perform_constant:
  "ideal_perform (c, y) (replicate n c) = map (\<lambda>i. y * ideal_coeff ^ Suc i) [0..<n]"
proof (induction n arbitrary: y)
  case 0
  show ?case by simp
next
  case (Suc n)
  have "map (\<lambda>i. y * ideal_coeff ^ Suc i) [0..<Suc n]
      = y * ideal_coeff # map (\<lambda>i. y * ideal_coeff * ideal_coeff ^ Suc i) [0..<n]"
    by (simp add: upt_rec [of 0 "Suc n"] map_Suc_upt [symmetric] del: upt_Suc)
  then show ?case
    by (simp add: ideal_calculate_def Let_def Suc.IH del: upt_Suc)
qed

lemma ideal_step_response:
  "ideal_perform (0, 0) (replicate (Suc n) c) ! n = c * ideal_coeff ^ n"
proof (cases n)
  case 0
  then show ?thesis by (simp add: ideal_calculate_def)
next
  case (Suc j)
  have "ideal_perform (0, 0) (replicate (Suc n) c)
      = c # map (\<lambda>i. c * ideal_coeff ^ Suc i) [0..<n]"
    by (simp add: ideal_calculate_def ideal_perform_constant del: upt_Suc)
  then show ?thesis
    using Suc by (simp del: upt_Suc)
qed

lemma ideal_step_response_limit:
  "(\<lambda>n. ideal_perform (0, 0) (replicate (Suc n) c) ! n) \<longlonglongrightarrow> 0"
proof -
  have "(\<lambda>n. ideal_coeff ^ n) \<longlonglongrightarrow> 0"
    by (rule LIMSEQ_realpow_zero) (simp_all add: ideal_coeff_def)
  then have "(\<lambda>n. c * ideal_coeff ^ n) \<longlonglongrightarrow> c * 0"
    by (rule tendsto_mult_left)
  then show ?thesis
    by (simp only: ideal_step_response mult_zero_right)
qed

lemma ideal_step_response_decreasing:
  assumes "c \<noteq> 0"
  shows "\<bar>ideal_perform (0, 0) (replicate (Suc (Suc n)) c) ! Suc n\<bar>
       < \<bar>ideal_perform (0, 0) (replicate (Suc n) c) ! n\<bar>"
proof -
  have "0 < \<bar>c\<bar> * ideal_coeff ^ n"
    using assms by (simp add: ideal_coeff_def)
  moreover have "\<bar>c\<bar> * ideal_coeff ^ Suc n = \<bar>c\<bar> * ideal_coeff ^ n * ideal_coeff"
    by simp
  ultimately have "\<bar>c\<bar> * ideal_coeff ^ Suc n < \<bar>c\<bar> * ideal_coeff ^ n"
    by (simp add: ideal_coeff_def)
  then show ?thesis
    unfolding ideal_step_response by (simp add: abs_mult ideal_coeff_def)
qed


section \<open>One call of calculate\<close>

text \<open>
  Claim C1: for every state and every input sample \<open>x\<close>, if bypass is false then
  \<^verbatim>\<open>calculate\<close> returns \<open>y = x - x_1 + y_1 * 0.9997\<close>, and after the call \<open>y_1\<close> is the
  returned \<open>y\<close> and \<open>x_1\<close> is \<open>x\<close>.
\<close>

theorem calculate_filters:
  assumes "\<not> bypass s"
  shows "fst (calculate s x) = x - x_1 s + y_1 s * lit_0_9997
       \<and> y_1 (snd (calculate s x)) = fst (calculate s x)
       \<and> x_1 (snd (calculate s x)) = x
       \<and> bypass (snd (calculate s x)) = bypass s"
  using assms by (simp add: calculate_def Let_def)

theorem calculate_filters_witness:
  "\<not> bypass fresh
   \<and> fst (calculate fresh lit_1_0) = lit_1_0 - x_1 fresh + y_1 fresh * lit_0_9997
   \<and> y_1 (snd (calculate fresh lit_1_0)) = fst (calculate fresh lit_1_0)
   \<and> x_1 (snd (calculate fresh lit_1_0)) = lit_1_0"
proof -
  have nb: "\<not> bypass fresh" by (simp add: fresh_def)
  show ?thesis using nb calculate_filters [OF nb, of lit_1_0] by simp
qed

text \<open>
  Claim C3: for every finite input \<open>x\<close> and every state, if bypass is true then
  \<^verbatim>\<open>calculate\<close> returns \<open>x\<close> and leaves \<open>x_1\<close> and \<open>y_1\<close> as they were.
\<close>

theorem bypass_identity_finite:
  assumes "bypass s" and "is_finite x"
  shows "fst (calculate s x) = x
       \<and> x_1 (snd (calculate s x)) = x_1 s
       \<and> y_1 (snd (calculate s x)) = y_1 s"
  using assms by (simp add: calculate_def)

theorem bypass_identity_finite_witness:
  "bypass (set_bypass True fresh) \<and> is_finite lit_1_0
   \<and> fst (calculate (set_bypass True fresh) lit_1_0) = lit_1_0
   \<and> x_1 (snd (calculate (set_bypass True fresh) lit_1_0)) = lit_0_0
   \<and> y_1 (snd (calculate (set_bypass True fresh) lit_1_0)) = lit_0_0"
proof -
  have b: "bypass (set_bypass True fresh)" by (simp add: set_bypass_def)
  have f: "is_finite lit_1_0" by (simp add: lit_1_0_def)
  have h: "x_1 (set_bypass True fresh) = lit_0_0 \<and> y_1 (set_bypass True fresh) = lit_0_0"
    by (simp add: set_bypass_def fresh_def)
  show ?thesis using b f h bypass_identity_finite [OF b f] by simp
qed

text \<open>
  Claim C9: the bypass identity holds for every input, NaN and the infinities included:
  if bypass is true then \<^verbatim>\<open>calculate\<close> returns its argument and the whole object, so
  \<open>x_1\<close> and \<open>y_1\<close> too, is unchanged; a non-finite input cannot reach the history while
  bypassed.
\<close>

theorem bypass_identity_all:
  assumes "bypass s"
  shows "calculate s x = (x, s)
       \<and> calculate s NaN = (NaN, s)
       \<and> calculate s (Infinity False) = (Infinity False, s)
       \<and> calculate s (Infinity True) = (Infinity True, s)"
  using assms by (simp add: calculate_def)

theorem bypass_identity_all_witness:
  "bypass (set_bypass True fresh)
   \<and> calculate (set_bypass True fresh) NaN = (NaN, set_bypass True fresh)
   \<and> calculate (set_bypass True fresh) (Infinity True) = (Infinity True, set_bypass True fresh)"
proof -
  have b: "bypass (set_bypass True fresh)" by (simp add: set_bypass_def)
  show ?thesis using b bypass_identity_all [OF b, of NaN] by simp
qed


section \<open>Construction and reset\<close>

text \<open>
  Claim C2: a freshly constructed filter has \<open>x_1 = 0.0\<close>, \<open>y_1 = 0.0\<close> and bypass false.
  The constructor sets none of the two histories: built over storage that holds \<open>1.0\<close> in
  both members, the object has \<open>x_1 = y_1 = 1.0\<close>, and its first output for the input \<open>0.0\<close> is
  \<open>(0.0 - 1.0) + 1.0 * 0.9997\<close>, about \<open>-0.0003\<close>, where a filter with zero history returns
  \<open>0.0\<close>. The histories are \<open>0.0\<close> only after \<^verbatim>\<open>clear\<close>. The bypass flag is as claimed.
\<close>

theorem ctor_leaves_history:
  "x_1 (dcblocker_ctor [] (lit_1_0, lit_1_0)) = lit_1_0
   \<and> y_1 (dcblocker_ctor [] (lit_1_0, lit_1_0)) = lit_1_0
   \<and> x_1 (dcblocker_ctor [] (lit_1_0, lit_1_0)) \<noteq> lit_0_0
   \<and> y_1 (dcblocker_ctor [] (lit_1_0, lit_1_0)) \<noteq> lit_0_0
   \<and> bypass (dcblocker_ctor [] (lit_1_0, lit_1_0)) = False
   \<and> fst (calculate (dcblocker_ctor [] (lit_1_0, lit_1_0)) lit_0_0)
       = Finite True 5534023222112256 (- 64)
   \<and> fst (calculate fresh lit_0_0) = lit_0_0
   \<and> x_1 (clear (dcblocker_ctor [] (lit_1_0, lit_1_0))) = lit_0_0
   \<and> y_1 (clear (dcblocker_ctor [] (lit_1_0, lit_1_0))) = lit_0_0"
proof -
  have nz: "\<not> is_zero lit_1_0" and z: "lit_0_0 \<noteq> neg_zero" and ne: "lit_1_0 \<noteq> lit_0_0"
    by (simp_all add: lits)
  have c: "dcblocker_ctor [] (lit_1_0, lit_1_0) = \<lparr>x_1 = lit_1_0, y_1 = lit_1_0, bypass = False\<rparr>"
    by (simp add: dcblocker_ctor_def)
  have out: "fst (calculate \<lparr>x_1 = lit_1_0, y_1 = lit_1_0, bypass = False\<rparr> lit_0_0)
      = Finite True 5534023222112256 (- 64)"
    by (simp add: calculate_step zero_sub [OF wf_lits(4) nz] prod_one coeff_minus_one)
  have zero: "fst (calculate fresh lit_0_0) = lit_0_0"
    by (simp add: calculate_fresh [OF wf_lits(1) z])
  show ?thesis
    unfolding c using out zero ne by (simp add: clear_def)
qed

text \<open>
  Claim C10: reset erases the influence of the earlier history: two objects with the same
  bypass flag, both cleared and then fed the same samples with the same bypass settings,
  give the same outputs and end in the same state.
\<close>

theorem clear_erases_history:
  assumes "bypass s = bypass t"
  shows "clear s = clear t
       \<and> feed (clear s) evs = feed (clear t) evs
       \<and> perform (clear s) xs = perform (clear t) xs"
proof -
  have "clear s = clear t"
    using assms by (simp add: clear_def)
  then show ?thesis by simp
qed

theorem clear_erases_history_witness:
  "bypass (dcblocker_ctor [] (NaN, lit_1_0)) = bypass fresh
   \<and> feed (clear (dcblocker_ctor [] (NaN, lit_1_0))) [(False, lit_1_0), (True, NaN)]
       = feed (clear fresh) [(False, lit_1_0), (True, NaN)]"
proof -
  have b: "bypass (dcblocker_ctor [] (NaN, lit_1_0)) = bypass fresh"
    by (simp add: dcblocker_ctor_def fresh_def)
  show ?thesis
    using b clear_erases_history [OF b, of "[(False, lit_1_0), (True, NaN)]"] by simp
qed





section \<open>Totality\<close>

text \<open>
  Claim C8: \<^verbatim>\<open>calculate\<close> and \<^verbatim>\<open>clear\<close> are total. Neither has a failing branch: the model
  of each is a plain function with no error value, as the source has no throw, no division and
  no access that can fail. For every object that holds doubles and every double \<open>x\<close>, finite,
  infinite or NaN, \<^verbatim>\<open>calculate\<close> returns a double and leaves an object that holds doubles,
  and so does \<^verbatim>\<open>clear\<close>.
\<close>

theorem calculate_total:
  assumes "wf_state s" and "wf_sample x"
  shows "wf_sample (fst (calculate s x)) \<and> wf_state (snd (calculate s x)) \<and> wf_state (clear s)"
  using assms
  by (simp add: calculate_def clear_def wf_state_def Let_def arith_wf wf_lits)

theorem calculate_total_witness:
  "wf_state fresh \<and> wf_sample NaN \<and> wf_sample (Infinity True)
   \<and> wf_sample (fst (calculate fresh NaN)) \<and> wf_state (snd (calculate fresh NaN))
   \<and> wf_sample (fst (calculate fresh (Infinity True))) \<and> wf_state (clear fresh)"
proof -
  have s: "wf_state fresh" by (simp add: wf_state_def fresh_def wf_lits)
  have n: "wf_sample NaN" and i: "wf_sample (Infinity True)" by (simp_all add: wf_sample_def)
  show ?thesis
    using s n i calculate_total [OF s n] calculate_total [OF s i] by simp
qed


section \<open>Step response\<close>





section \<open>Non-finite samples\<close>

text \<open>
  Claim C7: after one NaN sample every non-bypassed output is NaN until \<^verbatim>\<open>clear\<close>, and after
  \<^verbatim>\<open>clear\<close> all outputs are finite again provided all inputs are finite. The second half fails
  as stated: after \<^verbatim>\<open>clear\<close>, the finite inputs \<open>DBL_MAX, -DBL_MAX, DBL_MAX\<close> give the outputs
  \<open>DBL_MAX\<close>, then \<open>-infinity\<close> (the difference \<open>-DBL_MAX - DBL_MAX\<close> overflows), then NaN
  (\<open>infinity - infinity\<close>).
\<close>

theorem finite_inputs_overflow:
  "is_finite dbl_max \<and> is_finite (- dbl_max)
   \<and> clear (snd (calculate fresh NaN)) = fresh
   \<and> fst (feed (clear (snd (calculate fresh NaN)))
        [(False, dbl_max), (False, - dbl_max), (False, dbl_max)]) = [dbl_max, Infinity True, NaN]
   \<and> \<not> is_finite (Infinity True) \<and> \<not> is_finite NaN"
proof -
  have n: "dbl_max \<noteq> neg_zero" by (simp add: lits)
  have cl: "clear (snd (calculate fresh NaN)) = fresh"
    by (simp add: calculate_def clear_def fresh_def Let_def)
  have sb: "set_bypass False fresh = fresh"
    by (simp add: set_bypass_def fresh_def)
  have sb2: "set_bypass False \<lparr>x_1 = a, y_1 = b, bypass = False\<rparr>
      = \<lparr>x_1 = a, y_1 = b, bypass = False\<rparr>" for a b
    by (simp add: set_bypass_def)
  have c1: "calculate fresh dbl_max = (dbl_max, \<lparr>x_1 = dbl_max, y_1 = dbl_max, bypass = False\<rparr>)"
    by (rule calculate_fresh [OF wf_lits(7) n])
  have c2: "calculate \<lparr>x_1 = dbl_max, y_1 = dbl_max, bypass = False\<rparr> (- dbl_max)
      = (Infinity True, \<lparr>x_1 = - dbl_max, y_1 = Infinity True, bypass = False\<rparr>)"
    by (simp add: calculate_step overflow_evals)
  have c3: "calculate \<lparr>x_1 = - dbl_max, y_1 = Infinity True, bypass = False\<rparr> dbl_max
      = (NaN, \<lparr>x_1 = dbl_max, y_1 = NaN, bypass = False\<rparr>)"
    by (simp add: calculate_step overflow_evals)
  have "fst (feed fresh [(False, dbl_max), (False, - dbl_max), (False, dbl_max)])
      = [dbl_max, Infinity True, NaN]"
    by (simp add: sb sb2 c1 c2 c3 Let_def)
  then show ?thesis
    by (simp add: cl) (simp add: lits uminus_sample_def)
qed

text \<open>
  Claim C7, amended: if a NaN sample is fed to the non-bypassed filter, the output is NaN and
  every later non-bypassed output is NaN whatever samples and bypass settings follow, until
  \<^verbatim>\<open>clear\<close>. After \<^verbatim>\<open>clear\<close> both histories are \<open>0.0\<close> and every output is finite again as long as
  all inputs from then on are finite doubles of magnitude at most \<open>2^1010\<close>.
\<close>

theorem nan_until_clear:
  assumes "\<not> bypass s" and "\<forall>ev \<in> set evs'. bounded_by input_limit (snd ev)"
  shows "fst (calculate s NaN) = NaN
       \<and> (\<forall>i < length evs. \<not> fst (evs ! i) \<longrightarrow> fst (feed (snd (calculate s NaN)) evs) ! i = NaN)
       \<and> x_1 (clear (snd (feed (snd (calculate s NaN)) evs))) = lit_0_0
       \<and> y_1 (clear (snd (feed (snd (calculate s NaN)) evs))) = lit_0_0
       \<and> (\<forall>y \<in> set (fst (feed (clear (snd (feed (snd (calculate s NaN)) evs))) evs')).
            is_finite y)"
proof -
  have c: "calculate s NaN = (NaN, s\<lparr>y_1 := NaN, x_1 := NaN\<rparr>)"
    using assms(1) by (simp add: calculate_def NaN_arith)
  have "y_1 (snd (calculate s NaN)) = NaN"
    by (simp add: c)
  from feed_contaminated [OF this, of evs]
  have nan: "\<forall>i < length evs. \<not> fst (evs ! i) \<longrightarrow> fst (feed (snd (calculate s NaN)) evs) ! i = NaN"
    by blast
  have fin: "\<forall>y \<in> set (fst (feed (clear (snd (feed (snd (calculate s NaN)) evs))) evs')).
      is_finite y"
    using feed_bounded [OF bounded_state_clear assms(2)] by blast
  show ?thesis
    using c nan fin by (simp add: clear_def)
qed

theorem nan_until_clear_witness:
  "\<not> bypass fresh \<and> bounded_by input_limit lit_1_0
   \<and> fst (calculate fresh NaN) = NaN
   \<and> fst (feed (snd (calculate fresh NaN)) [(False, lit_1_0), (True, lit_1_0)]) ! 0 = NaN
   \<and> is_finite (fst (feed (clear (snd (feed (snd (calculate fresh NaN))
          [(False, lit_1_0), (True, lit_1_0)]))) [(False, lit_1_0)]) ! 0)"
proof -
  have nb: "\<not> bypass fresh" by (simp add: fresh_def)
  have inp: "\<forall>ev \<in> set [(False, lit_1_0)]. bounded_by input_limit (snd ev)"
    by (simp add: bounded_one)
  note t = nan_until_clear [OF nb inp, of "[(False, lit_1_0), (True, lit_1_0)]"]
  from t have "\<forall>i < length [(False, lit_1_0), (True, lit_1_0)].
      \<not> fst ([(False, lit_1_0), (True, lit_1_0)] ! i) \<longrightarrow>
      fst (feed (snd (calculate fresh NaN)) [(False, lit_1_0), (True, lit_1_0)]) ! i = NaN"
    by blast
  then have nan: "fst (feed (snd (calculate fresh NaN)) [(False, lit_1_0), (True, lit_1_0)]) ! 0 = NaN"
    by simp
  from t have "\<forall>y \<in> set (fst (feed (clear (snd (feed (snd (calculate fresh NaN))
      [(False, lit_1_0), (True, lit_1_0)]))) [(False, lit_1_0)])). is_finite y"
    by blast
  then have fin: "is_finite (fst (feed (clear (snd (feed (snd (calculate fresh NaN))
      [(False, lit_1_0), (True, lit_1_0)]))) [(False, lit_1_0)]) ! 0)"
    by (simp add: Let_def)
  from t have "fst (calculate fresh NaN) = NaN"
    by blast
  then show ?thesis
    using nb bounded_one nan fin by blast
qed


section \<open>Superposition\<close>




end
